theory Spec2Isabelle
  imports
    Main
    "HOL-Library.Char_ord"
    "HOL-Library.List_Lexorder"
    "HOL-Library.Product_Lexorder"
    "HOL-Library.Multiset"
begin

section \<open>Range compression: \<open>ranges\<close>\<close>

text \<open>
  \<open>matGroups.ranges\<close> sorts its argument and walks the sorted list with three nested
  \<open>while\<close> loops. Indices are natural numbers (the source only ever forms them from
  \<open>0\<close>, \<open>len\<close>, \<open>+ 1\<close> and \<open>// 2\<close>); the list elements and the differences compared in
  the innermost test are Python integers, hence \<open>int\<close>. A subscript outside the list
  raises \<open>IndexError\<close> in Python and is the value \<open>Inl IndexError\<close> here. Each loop is a
  \<open>partial_function\<close> in the option monad: \<open>None\<close> stands for a loop that never returns.
\<close>

datatype error = IndexError

text \<open>
  The innermost loop (source lines 62--64), entered with \<open>mid\<close> already computed:
  \<^verbatim>\<open>
  while sortedInts[mid] - sortedInts[upper] > mid - upper:
      boundary = mid
      mid = (upper + boundary)//2
  \<close>
  It returns the final \<open>(boundary, mid)\<close>.
\<close>

partial_function (option) shrink ::
  "int list \<Rightarrow> nat \<Rightarrow> nat \<Rightarrow> nat \<Rightarrow> (error + nat \<times> nat) option" where
  "shrink sortedInts upper boundary mid =
     (if mid < length sortedInts \<and> upper < length sortedInts then
        (if sortedInts ! mid - sortedInts ! upper > int mid - int upper
         then shrink sortedInts upper mid ((upper + mid) div 2)
         else Some (Inr (boundary, mid)))
      else Some (Inl IndexError))"

text \<open>
  The binary search for the upper index (source lines 60--65):
  \<^verbatim>\<open>
  while boundary > upper + 1:
      mid = (upper + boundary)//2
      <innermost loop>
      upper = mid
  \<close>
  It returns the final \<open>upper\<close>.
\<close>

partial_function (option) search :: "int list \<Rightarrow> nat \<Rightarrow> nat \<Rightarrow> (error + nat) option" where
  "search sortedInts upper boundary =
     (if boundary > upper + 1 then
        Option.bind (shrink sortedInts upper boundary ((upper + boundary) div 2))
          (\<lambda>r. case r of
                 Inl e \<Rightarrow> Some (Inl e)
               | Inr (boundary', mid) \<Rightarrow> search sortedInts mid boundary')
      else Some (Inr upper))"

text \<open>
  The outer loop (source lines 57--67); the pairs it yields are collected in a list:
  \<^verbatim>\<open>
  while lower < len(sortedInts):
      upper = lower
      boundary = len(sortedInts)
      <binary search>
      yield sortedInts[lower], sortedInts[upper]
      lower = upper + 1
  \<close>
\<close>

partial_function (option) ranges_loop ::
  "int list \<Rightarrow> nat \<Rightarrow> (error + (int \<times> int) list) option" where
  "ranges_loop sortedInts lower =
     (if lower < length sortedInts then
        Option.bind (search sortedInts lower (length sortedInts))
          (\<lambda>r. case r of
                 Inl e \<Rightarrow> Some (Inl e)
               | Inr upper \<Rightarrow>
                   if upper < length sortedInts then
                     Option.bind (ranges_loop sortedInts (upper + 1))
                       (\<lambda>r'. case r' of
                               Inl e \<Rightarrow> Some (Inl e)
                             | Inr rest \<Rightarrow>
                                 Some (Inr ((sortedInts ! lower, sortedInts ! upper) # rest)))
                   else Some (Inl IndexError))
      else Some (Inr []))"

declare shrink.simps [code] search.simps [code] ranges_loop.simps [code]

text \<open>\<open>sortedInts = sorted(intList)\<close>, \<open>lower = 0\<close>: duplicates of the input are kept.\<close>

definition ranges :: "int list \<Rightarrow> (error + (int \<times> int) list) option" where
  "ranges intList = ranges_loop (sort intList) 0"


section \<open>Display tokens: \<open>hmRanges\<close>\<close>

text \<open>\<open>hmRanges\<close> yields Python integers and strings.\<close>

datatype token = IntTok int | StrTok string

text \<open>Decimal rendering of an integer, as \<open>%d\<close> and \<open>str\<close> produce it.\<close>

definition digit_char :: "nat \<Rightarrow> char" where
  "digit_char d = ''0123456789'' ! d"

function str_nat :: "nat \<Rightarrow> string" where
  "str_nat n = (if n < 10 then [digit_char n] else str_nat (n div 10) @ [digit_char (n mod 10)])"
  by pat_completeness auto
termination
  by (relation "measure (\<lambda>n. n)") auto

declare str_nat.simps [simp del]

definition fmt_d :: "int \<Rightarrow> string" where
  "fmt_d i = (if i < 0 then CHR ''-'' # str_nat (nat (- i)) else str_nat (nat i))"

text \<open>\<open>%5d\<close>, \<open>%8d\<close>: right-justified in a field of the given width, never truncated.\<close>

definition fmt_wd :: "nat \<Rightarrow> int \<Rightarrow> string" where
  "fmt_wd w i = replicate (w - length (fmt_d i)) CHR '' '' @ fmt_d i"

text \<open>The body of the \<open>for\<close> loop of \<open>hmRanges\<close> (source lines 78--85) for one pair.\<close>

fun hm_pair :: "int \<times> int \<Rightarrow> token list" where
  "hm_pair (lower, upper) =
     (if lower = upper then [IntTok lower]
      else if lower + 1 = upper then [IntTok lower, IntTok upper]
      else [StrTok (fmt_d lower @ '' THRU '' @ fmt_d upper)])"

definition hmRanges :: "int list \<Rightarrow> (error + token list) option" where
  "hmRanges intList =
     (case ranges intList of
        None \<Rightarrow> None
      | Some (Inl e) \<Rightarrow> Some (Inl e)
      | Some (Inr pairs) \<Rightarrow> Some (Inr (concat (map hm_pair pairs))))"


section \<open>Writing the document: \<open>bdfExport\<close>\<close>

text \<open>
  The two output streams: the file object \<open>bdf\<close> and \<open>sys.stderr\<close>, each the text
  written to it so far.
\<close>

record sinks =
  bdf :: string
  stderr :: string

text \<open>\<open>str\<close> of a token, as \<open>print\<close> applies it to each argument.\<close>

fun str_tok :: "token \<Rightarrow> string" where
  "str_tok (IntTok i) = fmt_d i"
| "str_tok (StrTok s) = s"

fun join :: "string \<Rightarrow> string list \<Rightarrow> string" where
  "join sep [] = []"
| "join sep [x] = x"
| "join sep (x # y # ys) = x @ sep @ join sep (y # ys)"

text \<open>\<open>print(*args, sep=sep, end=end, file=...)\<close> on arguments already converted by \<open>str\<close>.\<close>

definition print_bdf :: "string list \<Rightarrow> string \<Rightarrow> string \<Rightarrow> sinks \<Rightarrow> sinks" where
  "print_bdf args sep end st = st\<lparr>bdf := bdf st @ join sep args @ end\<rparr>"

definition print_stderr :: "string list \<Rightarrow> string \<Rightarrow> string \<Rightarrow> sinks \<Rightarrow> sinks" where
  "print_stderr args sep end st = st\<lparr>stderr := stderr st @ join sep args @ end\<rparr>"

text \<open>
  \<open>range(start, stop, step)\<close> for a positive step, the only kind \<open>bdfExport\<close> uses
  (\<open>chunkSize = 8\<close>).
\<close>

function py_range :: "int \<Rightarrow> int \<Rightarrow> int \<Rightarrow> int list" where
  "py_range start stop step =
     (if 0 < step \<and> start < stop then start # py_range (start + step) stop step else [])"
  by pat_completeness auto
termination
  by (relation "measure (\<lambda>(start, stop, step). nat (stop - start))") auto

declare py_range.simps [simp del]

text \<open>
  Python slices \<open>xs[i:j]\<close> and \<open>xs[i:]\<close>: a negative bound counts from the end, and
  every bound is clipped to the list.
\<close>

definition clip_index :: "nat \<Rightarrow> int \<Rightarrow> nat" where
  "clip_index n i = (if i < 0 then nat (int n + i) else min n (nat i))"

definition slice :: "'a list \<Rightarrow> int \<Rightarrow> int \<Rightarrow> 'a list" where
  "slice xs i j = drop (clip_index (length xs) i) (take (clip_index (length xs) j) xs)"

definition slice_from :: "'a list \<Rightarrow> int \<Rightarrow> 'a list" where
  "slice_from xs i = drop (clip_index (length xs) i) xs"

definition chunkSize :: int where
  "chunkSize = 8"

text \<open>
  The \<open>for i in range(...)\<close> loop of source lines 114--115 over the values of the range;
  the state is the loop variable \<open>i\<close>, which the source reads after the loop, and the
  streams.
\<close>

fun for_chunks :: "token list \<Rightarrow> int list \<Rightarrow> int \<times> sinks \<Rightarrow> int \<times> sinks" where
  "for_chunks hmList [] (i, st) = (i, st)"
| "for_chunks hmList (j # js) (i, st) =
     for_chunks hmList js
       (j, print_bdf (map str_tok (slice hmList j (j + chunkSize))) '','' '',\<newline>'' st)"

text \<open>Source lines 112--117: the token lines of one set.\<close>

definition write_tokens :: "token list \<Rightarrow> sinks \<Rightarrow> sinks" where
  "write_tokens hmList st =
     (let (i, st1) = for_chunks hmList
                       (py_range 0 (int (length hmList) - chunkSize) chunkSize)
                       (- chunkSize, st);
          i2 = i + chunkSize
      in print_bdf (map str_tok (slice_from hmList i2)) '','' ''\<newline>'' st1)"

text \<open>
  The two formatted lines around the tokens: \<open>'SET%5d = '\<close> (printed with \<open>end=''\<close>) and
  \<open>'$HMSET %8d %8d "%s"'\<close>.
\<close>

definition set_label :: "int \<Rightarrow> string" where
  "set_label matId = ''SET'' @ fmt_wd 5 matId @ '' = ''"

definition hmset_line :: "int \<Rightarrow> int \<Rightarrow> string \<Rightarrow> string" where
  "hmset_line matId setType matName =
     ''$HMSET '' @ fmt_wd 8 matId @ '' '' @ fmt_wd 8 setType @ '' '' @
     [CHR 0x22] @ matName @ [CHR 0x22]"

text \<open>The body of the loop over the sets (source lines 109--118).\<close>

definition export_set :: "int \<Rightarrow> int \<Rightarrow> string \<times> int list \<Rightarrow> sinks \<Rightarrow> (error + sinks) option" where
  "export_set setType matId item st =
     (case item of (matName, elems) \<Rightarrow>
        let st1 = print_stderr [matName, fmt_d (int (length elems))] '' '' ''\<newline>'' st;
            st2 = print_bdf [set_label matId] '' '' [] st1
        in case hmRanges elems of
             None \<Rightarrow> None
           | Some (Inl e) \<Rightarrow> Some (Inl e)
           | Some (Inr hmList) \<Rightarrow>
               Some (Inr (print_bdf [hmset_line matId setType matName] '' '' ''\<newline>''
                            (write_tokens hmList st2))))"

text \<open>
  \<open>for matId, (matName, elems) in enumerate(<sorted items>, 1)\<close>: the second argument
  is the running \<open>matId\<close>.
\<close>

fun export_sets ::
  "int \<Rightarrow> int \<Rightarrow> (string \<times> int list) list \<Rightarrow> sinks \<Rightarrow> (error + sinks) option" where
  "export_sets setType matId [] st = Some (Inr st)"
| "export_sets setType matId (item # items) st =
     (case export_set setType matId item st of
        None \<Rightarrow> None
      | Some (Inl e) \<Rightarrow> Some (Inl e)
      | Some (Inr st') \<Rightarrow> export_sets setType (matId + 1) items st')"

text \<open>
  \<open>bdfExport(bdf, setDict, setType)\<close>. The dictionary is given by \<open>setDict.items()\<close>, its
  (name, members) pairs in the dictionary's own iteration order; \<open>sorted\<close> compares the
  pairs as Python compares tuples, first by name and then by the member lists, which is
  the lexicographic order of \<open>string \<times> int list\<close>.
\<close>

definition bdfExport :: "sinks \<Rightarrow> (string \<times> int list) list \<Rightarrow> int \<Rightarrow> (error + sinks) option" where
  "bdfExport st setDict setType =
     (let st1 = print_bdf [''CEND''] '' '' ''\<newline>'' st
      in case export_sets setType 1 (sort setDict) st1 of
           None \<Rightarrow> None
         | Some (Inl e) \<Rightarrow> Some (Inl e)
         | Some (Inr st2) \<Rightarrow>
             Some (Inr (print_bdf [''ENDDATA''] '' '' ''\<newline>''
                          (print_bdf [''BEGIN BULK''] '' '' ''\<newline>'' st2))))"

definition no_output :: sinks where
  "no_output = \<lparr>bdf = [], stderr = []\<rparr>"


section \<open>Specification vocabulary\<close>

text \<open>The integers covered by a list of (lower, upper) pairs, read as closed intervals.\<close>

definition covered :: "(int \<times> int) list \<Rightarrow> int set" where
  "covered ps = (\<Union>(l, u) \<in> set ps. {l..u})"

text \<open>
  The maximal contiguous runs of a set of integers: the intervals that lie inside the
  set and cannot be extended at either end.
\<close>

definition maximal_runs :: "int set \<Rightarrow> (int \<times> int) set" where
  "maximal_runs S = {(l, u). l \<le> u \<and> {l..u} \<subseteq> S \<and> l - 1 \<notin> S \<and> u + 1 \<notin> S}"

text \<open>
  What the run of \<open>ranges_loop\<close> from index \<open>lower\<close> establishes about the pairs it
  yields, for any list \<open>s\<close>: each pair is read at the ends of a block of indices whose
  values rise by at most the index distance, and the value after the block jumps by more
  than one.
\<close>

inductive run_blocks :: "int list \<Rightarrow> nat \<Rightarrow> (int \<times> int) list \<Rightarrow> bool" for s where
  finished: "length s \<le> lower \<Longrightarrow> run_blocks s lower []"
| emitted: "lower \<le> u \<Longrightarrow> u < length s \<Longrightarrow> s ! u - s ! lower \<le> int u - int lower \<Longrightarrow>
     u + 1 = length s \<or> 1 < s ! (u + 1) - s ! u \<Longrightarrow> run_blocks s (u + 1) rest \<Longrightarrow>
     run_blocks s lower ((s ! lower, s ! u) # rest)"

text \<open>
  Reading a rendered token list back into integers, as the specification describes it:
  an integer token stands for itself, and a string token \<open><l> THRU <u>\<close>, with both
  bounds in decimal, stands for all integers from \<open>l\<close> to \<open>u\<close> inclusive. A string of
  any other form has no reading.
\<close>

definition digits :: "char set" where
  "digits = set ''0123456789''"

definition digit_val :: "char \<Rightarrow> nat option" where
  "digit_val c = map_of (zip ''0123456789'' [0, 1, 2, 3, 4, 5, 6, 7, 8, 9]) c"

fun parse_nat_acc :: "nat \<Rightarrow> string \<Rightarrow> nat option" where
  "parse_nat_acc a [] = Some a"
| "parse_nat_acc a (c # cs) =
     (case digit_val c of None \<Rightarrow> None | Some d \<Rightarrow> parse_nat_acc (10 * a + d) cs)"

definition parse_int :: "string \<Rightarrow> int option" where
  "parse_int t =
     (case t of
        [] \<Rightarrow> None
      | c # cs \<Rightarrow>
          if c = CHR ''-''
          then (if cs = [] then None else map_option (\<lambda>n. - int n) (parse_nat_acc 0 cs))
          else map_option int (parse_nat_acc 0 t))"

definition parse_thru :: "string \<Rightarrow> (int \<times> int) option" where
  "parse_thru t =
     (let a = takeWhile (\<lambda>c. c \<noteq> CHR '' '') t;
          r = dropWhile (\<lambda>c. c \<noteq> CHR '' '') t
      in if take 6 r = '' THRU '' then
           (case parse_int a of
              None \<Rightarrow> None
            | Some l \<Rightarrow> (case parse_int (drop 6 r) of None \<Rightarrow> None | Some u \<Rightarrow> Some (l, u)))
         else None)"

fun expand_token :: "token \<Rightarrow> int list option" where
  "expand_token (IntTok i) = Some [i]"
| "expand_token (StrTok t) =
     (case parse_thru t of None \<Rightarrow> None | Some (l, u) \<Rightarrow> Some [l..u])"

fun expand :: "token list \<Rightarrow> int list option" where
  "expand [] = Some []"
| "expand (t # ts) =
     (case expand_token t of
        None \<Rightarrow> None
      | Some vs \<Rightarrow> (case expand ts of None \<Rightarrow> None | Some ws \<Rightarrow> Some (vs @ ws)))"

text \<open>
  The text that source lines 112--117 write for a token list, and a list cut into
  groups of eight with the remainder (possibly empty) as the last group.
\<close>

definition token_text :: "token list \<Rightarrow> string" where
  "token_text hmList = bdf (write_tokens hmList no_output)"

function chunks8 :: "'a list \<Rightarrow> 'a list list" where
  "chunks8 xs = (if length xs \<le> 8 then [xs] else take 8 xs # chunks8 (drop 8 xs))"
  by pat_completeness auto
termination
  by (relation "measure length") auto

declare chunks8.simps [simp del]

definition wrapped_lines :: "token list list \<Rightarrow> string" where
  "wrapped_lines chunks =
     concat (map (\<lambda>c. join '','' (map str_tok c) @ '',\<newline>'') (butlast chunks)) @
     join '','' (map str_tok (last chunks)) @ ''\<newline>''"

text \<open>
  The tokens of a set (\<open>hmRanges\<close> always returns them, see \<open>ranges_blocks\<close>), the
  text of its record and \<open>$HMSET\<close> line, and its progress notice on \<open>stderr\<close>.
\<close>

definition tokens_of :: "int list \<Rightarrow> token list" where
  "tokens_of elems = (case hmRanges elems of Some (Inr hmList) \<Rightarrow> hmList | _ \<Rightarrow> [])"

definition record_text :: "int \<Rightarrow> int \<Rightarrow> string \<times> int list \<Rightarrow> string" where
  "record_text setType matId item =
     set_label matId @ token_text (tokens_of (snd item)) @
     hmset_line matId setType (fst item) @ ''\<newline>''"

definition notice :: "string \<times> int list \<Rightarrow> string" where
  "notice item = fst item @ '' '' @ fmt_d (int (length (snd item))) @ ''\<newline>''"

fun records :: "int \<Rightarrow> int \<Rightarrow> (string \<times> int list) list \<Rightarrow> string list" where
  "records setType matId [] = []"
| "records setType matId (item # items) =
     record_text setType matId item # records setType (matId + 1) items"


section \<open>The loops of \<open>ranges\<close> return\<close>

lemma shrink_returns:
  assumes "upper \<le> mid" "mid < length s"
  shows "\<exists>b m. shrink s upper boundary mid = Some (Inr (b, m)) \<and> upper \<le> m \<and> m \<le> mid \<and>
           s ! m - s ! upper \<le> int m - int upper \<and>
           ((b = boundary \<and> m = mid) \<or>
            (m < b \<and> b \<le> mid \<and> int b - int upper < s ! b - s ! upper))"
  using assms
proof (induction "mid - upper" arbitrary: boundary mid rule: less_induct)
  case less
  show ?case
  proof (cases "int mid - int upper < s ! mid - s ! upper")
    case False
    with less.prems show ?thesis
      by (subst shrink.simps) simp
  next
    case True
    with less.prems have lt: "upper < mid"
      by (cases "upper = mid") auto
    let ?m = "(upper + mid) div 2"
    have m: "upper \<le> ?m" "?m < mid" using lt by auto
    then have "?m - upper < mid - upper" "?m < length s" using less.prems by auto
    from less.hyps [OF this(1) m(1) this(2), of mid]
    obtain b m' where r: "shrink s upper mid ?m = Some (Inr (b, m'))" "upper \<le> m'" "m' \<le> ?m"
        "s ! m' - s ! upper \<le> int m' - int upper"
        "(b = mid \<and> m' = ?m) \<or> (m' < b \<and> b \<le> ?m \<and> int b - int upper < s ! b - s ! upper)"
      by blast
    have "shrink s upper boundary mid = shrink s upper mid ?m"
      using True less.prems by (subst shrink.simps) simp
    with r m True show ?thesis by auto
  qed
qed

lemma search_returns:
  assumes "upper < boundary" "boundary \<le> length s"
    and "boundary = length s \<or> int boundary - int upper < s ! boundary - s ! upper"
  shows "\<exists>u. search s upper boundary = Some (Inr u) \<and> upper \<le> u \<and> u < length s \<and>
           s ! u - s ! upper \<le> int u - int upper \<and>
           (u + 1 = length s \<or> 1 < s ! (u + 1) - s ! u)"
  using assms
proof (induction "boundary - upper" arbitrary: boundary upper rule: less_induct)
  case less
  show ?case
  proof (cases "upper + 1 < boundary")
    case False
    with less.prems have "boundary = upper + 1" by simp
    with less.prems show ?thesis
      by (subst search.simps) auto
  next
    case True
    let ?mid = "(upper + boundary) div 2"
    have mid: "upper < ?mid" "?mid < boundary" using True by auto
    then have "upper \<le> ?mid" "?mid < length s" using less.prems by auto
    from shrink_returns [OF this, of boundary]
    obtain b m where r: "shrink s upper boundary ?mid = Some (Inr (b, m))" "upper \<le> m" "m \<le> ?mid"
        "s ! m - s ! upper \<le> int m - int upper"
        "(b = boundary \<and> m = ?mid) \<or> (m < b \<and> b \<le> ?mid \<and> int b - int upper < s ! b - s ! upper)"
      by blast
    have step: "search s upper boundary = search s m b"
      using True r(1) by (subst search.simps) simp
    have 1: "b - m < boundary - upper" using r mid by auto
    have 2: "m < b" using r mid by auto
    have 3: "b \<le> length s" using r mid less.prems by auto
    have 4: "b = length s \<or> int b - int m < s ! b - s ! m"
      using r mid less.prems by auto
    from less.hyps [OF 1 2 3 4]
    obtain u where u: "search s m b = Some (Inr u)" "m \<le> u" "u < length s"
        "s ! u - s ! m \<le> int u - int m" "u + 1 = length s \<or> 1 < s ! (u + 1) - s ! u"
      by blast
    with step r show ?thesis by auto
  qed
qed

lemma ranges_loop_returns:
  "\<exists>ps. ranges_loop s lower = Some (Inr ps) \<and> run_blocks s lower ps"
proof (induction "length s - lower" arbitrary: lower rule: less_induct)
  case less
  show ?case
  proof (cases "lower < length s")
    case False
    then show ?thesis
      by (subst ranges_loop.simps) (simp add: run_blocks.finished)
  next
    case True
    from search_returns [of lower "length s" s] True
    obtain u where u: "search s lower (length s) = Some (Inr u)" "lower \<le> u" "u < length s"
        "s ! u - s ! lower \<le> int u - int lower" "u + 1 = length s \<or> 1 < s ! (u + 1) - s ! u"
      by auto
    then have "length s - (u + 1) < length s - lower" by auto
    from less.hyps [OF this]
    obtain rest where rest: "ranges_loop s (u + 1) = Some (Inr rest)" "run_blocks s (u + 1) rest"
      by blast
    have "ranges_loop s lower = Some (Inr ((s ! lower, s ! u) # rest))"
      using True u(1,3) rest(1) by (subst ranges_loop.simps) simp
    moreover have "run_blocks s lower ((s ! lower, s ! u) # rest)"
      using u rest by (intro run_blocks.emitted)
    ultimately show ?thesis by blast
  qed
qed

lemma ranges_blocks:
  "\<exists>ps. ranges xs = Some (Inr ps) \<and> run_blocks (sort xs) 0 ps"
  unfolding ranges_def by (rule ranges_loop_returns)

text \<open>
  Claim C9. For every finite list of integers \<open>ranges\<close> returns a list of pairs
  (it neither loops forever nor raises). The reason is the one the loops show: from a
  state with \<open>upper + 1 < boundary\<close> the innermost loop returns a new boundary and a new
  upper index that are strictly closer together, and each binary search started at
  \<open>lower\<close> returns an index \<open>upper\<close> inside the list with \<open>lower < upper + 1\<close>, so the
  next \<open>lower\<close> is strictly larger.
\<close>

theorem ranges_terminates:
  "(\<exists>pairs. ranges intList = Some (Inr pairs)) \<and>
   (\<forall>s upper boundary. upper + 1 < boundary \<and> boundary \<le> length s \<longrightarrow>
      (\<exists>boundary' mid. shrink s upper boundary ((upper + boundary) div 2) = Some (Inr (boundary', mid)) \<and>
         upper \<le> mid \<and> mid < boundary' \<and> boundary' \<le> boundary \<and>
         boundary' - mid < boundary - upper)) \<and>
   (\<forall>s lower. lower < length s \<longrightarrow>
      (\<exists>upper. search s lower (length s) = Some (Inr upper) \<and> lower < upper + 1 \<and> upper < length s))"
proof (intro conjI allI impI)
  show "\<exists>pairs. ranges intList = Some (Inr pairs)"
    using ranges_blocks by blast
next
  fix s :: "int list" and upper boundary :: nat
  assume a: "upper + 1 < boundary \<and> boundary \<le> length s"
  let ?mid = "(upper + boundary) div 2"
  have mid: "upper < ?mid" "?mid < boundary" using a by auto
  then have "upper \<le> ?mid" "?mid < length s" using a by auto
  from shrink_returns [OF this, of boundary]
  obtain b m where "shrink s upper boundary ?mid = Some (Inr (b, m))" "upper \<le> m" "m \<le> ?mid"
      "(b = boundary \<and> m = ?mid) \<or> (m < b \<and> b \<le> ?mid \<and> int b - int upper < s ! b - s ! upper)"
    by blast
  moreover from this mid have "m < b" "b \<le> boundary" "b - m < boundary - upper" by auto
  ultimately show "\<exists>boundary' mid. shrink s upper boundary ?mid = Some (Inr (boundary', mid)) \<and>
         upper \<le> mid \<and> mid < boundary' \<and> boundary' \<le> boundary \<and>
         boundary' - mid < boundary - upper"
    by blast
next
  fix s :: "int list" and lower :: nat
  assume "lower < length s"
  with search_returns [of lower "length s" s]
  show "\<exists>upper. search s lower (length s) = Some (Inr upper) \<and> lower < upper + 1 \<and> upper < length s"
    by auto
qed

theorem ranges_terminates_witness:
  "(\<exists>pairs. ranges [10, 11, 12, 1, 2, 3, 4, 17, 18, 20] = Some (Inr pairs)) \<and>
   ((0::nat) + 1 < 10 \<and> 10 \<le> length [1, 2, 3, 4, 10, 11, 12, 17, 18, 20 :: int]) \<and>
   (\<exists>boundary' mid. shrink [1, 2, 3, 4, 10, 11, 12, 17, 18, 20] 0 10 ((0 + 10) div 2) =
        Some (Inr (boundary', mid)) \<and> 0 \<le> mid \<and> mid < boundary' \<and> boundary' \<le> 10 \<and>
        boundary' - mid < 10 - 0) \<and>
   (0::nat) < length [1, 2, 3, 4, 10, 11, 12, 17, 18, 20 :: int] \<and>
   (\<exists>upper. search [1, 2, 3, 4, 10, 11, 12, 17, 18, 20] 0
               (length [1, 2, 3, 4, 10, 11, 12, 17, 18, 20 :: int]) = Some (Inr upper) \<and>
            0 < upper + 1 \<and> upper < length [1, 2, 3, 4, 10, 11, 12, 17, 18, 20 :: int])"
proof -
  let ?s = "[1, 2, 3, 4, 10, 11, 12, 17, 18, 20 :: int]"
  note t = ranges_terminates [of "[10, 11, 12, 1, 2, 3, 4, 17, 18, 20]"]
  have h1: "(0::nat) + 1 < 10 \<and> 10 \<le> length ?s" by simp
  have h2: "(0::nat) < length ?s" by simp
  from t have a: "\<exists>pairs. ranges [10, 11, 12, 1, 2, 3, 4, 17, 18, 20] = Some (Inr pairs)"
    by (rule conjunct1)
  from t h1 have b: "\<exists>boundary' mid. shrink ?s 0 10 ((0 + 10) div 2) =
        Some (Inr (boundary', mid)) \<and> 0 \<le> mid \<and> mid < boundary' \<and> boundary' \<le> 10 \<and>
        boundary' - mid < 10 - 0"
    by blast
  from t h2 have c: "\<exists>upper. search ?s 0 (length ?s) = Some (Inr upper) \<and>
            0 < upper + 1 \<and> upper < length ?s"
    by blast
  from a h1 b h2 c show ?thesis by blast
qed


section \<open>The pairs are the maximal runs\<close>

lemma covered_Nil: "covered [] = {}"
  by (simp add: covered_def)

lemma covered_Cons: "covered ((l, u) # ps) = {l..u} \<union> covered ps"
  by (simp add: covered_def)

lemma strict_gap:
  assumes "sorted s" "distinct s" "i \<le> j" "j < length s"
  shows "int j - int i \<le> s ! j - s ! i"
  using assms(3,4)
proof (induction j)
  case 0
  then show ?case by simp
next
  case (Suc j)
  show ?case
  proof (cases "i = Suc j")
    case True
    then show ?thesis by simp
  next
    case False
    with Suc.prems have ij: "i \<le> j" "j < length s" by auto
    have "s ! j \<le> s ! Suc j"
      using assms(1) Suc.prems by (simp add: sorted_nth_mono)
    moreover have "s ! j \<noteq> s ! Suc j"
      using assms(2) Suc.prems by (simp add: nth_eq_iff_index_eq)
    ultimately show ?thesis using Suc.IH [OF ij] by simp
  qed
qed

lemma block_values:
  assumes "sorted s" "distinct s" "lower \<le> u" "u < length s"
    and "s ! u - s ! lower \<le> int u - int lower"
    and "lower \<le> i" "i \<le> u"
  shows "s ! i = s ! lower + (int i - int lower)"
proof -
  have "int i - int lower \<le> s ! i - s ! lower"
    using assms by (intro strict_gap) auto
  moreover have "int u - int i \<le> s ! u - s ! i"
    using assms by (intro strict_gap) auto
  ultimately show ?thesis using assms(5) by linarith
qed

lemma block_interval:
  assumes "sorted s" "distinct s" "lower \<le> u" "u < length s"
    and "s ! u - s ! lower \<le> int u - int lower"
  shows "{s ! lower..s ! u} = (!) s ` {lower..u}"
proof (intro set_eqI iffI)
  fix x assume "x \<in> {s ! lower..s ! u}"
  then have x: "s ! lower \<le> x" "x \<le> s ! u" by auto
  let ?i = "lower + nat (x - s ! lower)"
  have top: "s ! u = s ! lower + (int u - int lower)"
    using block_values [OF assms, of u] assms(3) by simp
  have "lower \<le> ?i" "?i \<le> u" using x top by auto
  from block_values [OF assms this] x have "s ! ?i = x" by simp
  with \<open>lower \<le> ?i\<close> \<open>?i \<le> u\<close> show "x \<in> (!) s ` {lower..u}"
    by (intro image_eqI [where x = ?i]) auto
next
  fix x assume "x \<in> (!) s ` {lower..u}"
  then obtain i where i: "lower \<le> i" "i \<le> u" "x = s ! i" by auto
  have "s ! lower \<le> s ! i" "s ! i \<le> s ! u"
    using assms(1,4) i by (auto intro: sorted_nth_mono)
  with i show "x \<in> {s ! lower..s ! u}" by simp
qed


lemma range_split:
  assumes "lower \<le> u" "u < (n::nat)"
  shows "{lower..<n} = {lower..u} \<union> {u + 1..<n}"
  using assms by auto


lemma run_blocks_exact:
  assumes "run_blocks s lower ps" "sorted s" "distinct s"
  shows "covered ps = (!) s ` {lower..<length s}"
  using assms
proof (induction rule: run_blocks.induct)
  case (finished lower)
  then show ?case by (simp add: covered_Nil)
next
  case (emitted lower u rest)
  have "(!) s ` {lower..<length s} = (!) s ` {lower..u} \<union> (!) s ` {u + 1..<length s}"
    using emitted.hyps(1,2) by (simp add: range_split [of lower u "length s"] image_Un)
  also have "\<dots> = {s ! lower..s ! u} \<union> covered rest"
    using block_interval [OF emitted.prems emitted.hyps(1,2,3)] emitted.IH [OF emitted.prems]
    by simp
  finally show ?case by (simp add: covered_Cons)
qed

lemma run_blocks_origin:
  assumes "run_blocks s lower ps" "sorted s" "p \<in> set ps"
  shows "fst p \<le> snd p \<and> (\<exists>i. lower \<le> i \<and> i < length s \<and> fst p = s ! i)"
  using assms
proof (induction rule: run_blocks.induct)
  case (finished lower)
  then show ?case by simp
next
  case (emitted lower u rest)
  show ?case
  proof (cases "p = (s ! lower, s ! u)")
    case True
    have "s ! lower \<le> s ! u"
      using emitted.prems(1) emitted.hyps(1,2) by (simp add: sorted_nth_mono)
    with True emitted.hyps(1,2) show ?thesis by auto
  next
    case False
    with emitted.prems have "p \<in> set rest" by simp
    from emitted.IH [OF emitted.prems(1) this]
    obtain i where "fst p \<le> snd p" "u + 1 \<le> i" "i < length s" "fst p = s ! i" by blast
    moreover from this emitted.hyps(1) have "lower \<le> i" by simp
    ultimately show ?thesis by blast
  qed
qed

lemma run_blocks_separated:
  assumes "run_blocks s lower ps" "sorted s"
  shows "sorted_wrt (\<lambda>p q. snd p + 1 < fst q) ps"
  using assms
proof (induction rule: run_blocks.induct)
  case (finished lower)
  then show ?case by simp
next
  case (emitted lower u rest)
  have "s ! u + 1 < fst q" if q: "q \<in> set rest" for q
  proof -
    from run_blocks_origin [OF emitted.hyps(5) emitted.prems q]
    obtain i where i: "u + 1 \<le> i" "i < length s" "fst q = s ! i" by blast
    then have "1 < s ! (u + 1) - s ! u" using emitted.hyps(4) by auto
    moreover have "s ! (u + 1) \<le> s ! i"
      using emitted.prems i by (simp add: sorted_nth_mono)
    ultimately show ?thesis using i by simp
  qed
  with emitted.IH [OF emitted.prems] show ?case by simp
qed

lemma run_blocks_maximal:
  assumes "run_blocks s lower ps" "sorted s" "distinct s"
    and "lower < length s \<Longrightarrow> lower = 0 \<or> s ! (lower - 1) + 1 < s ! lower"
  shows "set ps \<subseteq> maximal_runs (set s)"
  using assms
proof (induction rule: run_blocks.induct)
  case (finished lower)
  then show ?case by simp
next
  case (emitted lower u rest)
  note srt = \<open>sorted s\<close> and dst = \<open>distinct s\<close>
  have lo: "lower < length s" using emitted.hyps(1,2) by simp
  have 1: "s ! lower \<le> s ! u"
    using srt emitted.hyps(1,2) by (simp add: sorted_nth_mono)
  have 2: "{s ! lower..s ! u} \<subseteq> set s"
    using block_interval [OF srt dst emitted.hyps(1,2,3)] emitted.hyps(2) by auto
  have 3: "s ! lower - 1 \<notin> set s"
  proof
    assume "s ! lower - 1 \<in> set s"
    then obtain k where k: "k < length s" "s ! k = s ! lower - 1"
      by (auto simp: in_set_conv_nth)
    show False
    proof (cases "lower \<le> k")
      case True
      then have "s ! lower \<le> s ! k" using srt k(1) by (simp add: sorted_nth_mono)
      with k show False by simp
    next
      case False
      then have "k \<le> lower - 1" "lower \<noteq> 0" by auto
      then have "s ! k \<le> s ! (lower - 1)" using srt lo by (simp add: sorted_nth_mono)
      moreover have "s ! (lower - 1) + 1 < s ! lower"
        using emitted.prems(3) lo \<open>lower \<noteq> 0\<close> by simp
      ultimately show False using k by simp
    qed
  qed
  have 4: "s ! u + 1 \<notin> set s"
  proof
    assume "s ! u + 1 \<in> set s"
    then obtain k where k: "k < length s" "s ! k = s ! u + 1"
      by (auto simp: in_set_conv_nth)
    show False
    proof (cases "k \<le> u")
      case True
      then have "s ! k \<le> s ! u" using srt emitted.hyps(2) by (simp add: sorted_nth_mono)
      with k show False by simp
    next
      case False
      then have ge: "u + 1 \<le> k" by simp
      then have "s ! (u + 1) \<le> s ! k" using srt k(1) by (simp add: sorted_nth_mono)
      moreover have "1 < s ! (u + 1) - s ! u" using emitted.hyps(4) ge k(1) by auto
      ultimately show False using k by simp
    qed
  qed
  have "(s ! lower, s ! u) \<in> maximal_runs (set s)"
    using 1 2 3 4 by (simp add: maximal_runs_def)
  moreover have "set rest \<subseteq> maximal_runs (set s)"
  proof (rule emitted.IH [OF srt dst])
    assume "u + 1 < length s"
    then show "u + 1 = 0 \<or> s ! (u + 1 - 1) + 1 < s ! (u + 1)"
      using emitted.hyps(4) by auto
  qed
  ultimately show ?case by simp
qed

lemma maximal_runs_covered:
  assumes "covered ps = S" "set ps \<subseteq> maximal_runs S"
  shows "maximal_runs S \<subseteq> set ps"
proof
  fix r assume r: "r \<in> maximal_runs S"
  obtain l u where lu: "r = (l, u)" by (cases r)
  with r have m: "l \<le> u" "{l..u} \<subseteq> S" "l - 1 \<notin> S" "u + 1 \<notin> S"
    by (auto simp: maximal_runs_def)
  then have "l \<in> covered ps" using assms(1) by auto
  then obtain l' u' where p: "(l', u') \<in> set ps" "l' \<le> l" "l \<le> u'"
    by (auto simp: covered_def)
  with assms(2) have m': "{l'..u'} \<subseteq> S" "l' - 1 \<notin> S" "u' + 1 \<notin> S"
    by (auto simp: maximal_runs_def)
  have "l' = l"
  proof (rule ccontr)
    assume "l' \<noteq> l"
    with p have "l - 1 \<in> {l'..u'}" by simp
    with m' m show False by blast
  qed
  moreover have "u' = u"
  proof (rule ccontr)
    assume "u' \<noteq> u"
    then consider "u < u'" | "u' < u" by linarith
    then show False
    proof cases
      case 1
      with p m \<open>l' = l\<close> have "u + 1 \<in> {l'..u'}" by simp
      with m' m show False by blast
    next
      case 2
      with p m have "u' + 1 \<in> {l..u}" by simp
      with m' m show False by blast
    qed
  qed
  ultimately show "r \<in> set ps" using p lu by simp
qed

lemma separated_distinct:
  assumes "sorted_wrt (\<lambda>p q. snd p + 1 < fst q) ps" "\<forall>p \<in> set ps. fst p \<le> (snd p :: int)"
  shows "distinct ps"
  using assms
proof (induction ps)
  case Nil
  then show ?case by simp
next
  case (Cons p ps)
  have "p \<notin> set ps"
  proof
    assume "p \<in> set ps"
    with Cons.prems have "snd p + 1 < fst p" "fst p \<le> snd p" by auto
    then show False by simp
  qed
  with Cons show ?case by simp
qed

lemma nth_image_all: "(!) s ` {0..<length s} = set s"
  by (auto simp: in_set_conv_nth)

lemma ranges_properties:
  assumes "distinct intList"
  shows "\<exists>pairs. ranges intList = Some (Inr pairs) \<and>
           covered pairs = set intList \<and>
           (\<forall>i j. i < j \<and> j < length pairs \<longrightarrow> snd (pairs ! i) + 1 < fst (pairs ! j)) \<and>
           (\<forall>p \<in> set pairs. fst p \<le> snd p) \<and>
           length pairs = card (maximal_runs (set intList))"
proof -
  let ?s = "sort intList"
  obtain ps where r: "ranges intList = Some (Inr ps)" and b: "run_blocks ?s 0 ps"
    using ranges_blocks by blast
  have srt: "sorted ?s" and dst: "distinct ?s" using assms by simp_all
  have cov: "covered ps = set intList"
    using run_blocks_exact [OF b srt dst] nth_image_all [of ?s] by simp
  have sep: "sorted_wrt (\<lambda>p q. snd p + 1 < fst q) ps"
    by (rule run_blocks_separated [OF b srt])
  have ord: "\<forall>p \<in> set ps. fst p \<le> snd p"
    using run_blocks_origin [OF b srt] by blast
  have "set ps \<subseteq> maximal_runs (set ?s)"
    by (rule run_blocks_maximal [OF b srt dst]) simp
  then have sub: "set ps \<subseteq> maximal_runs (set intList)" by simp
  with maximal_runs_covered [OF cov sub] have "set ps = maximal_runs (set intList)" by blast
  then have "card (maximal_runs (set intList)) = length ps"
    using separated_distinct [OF sep ord] by (metis distinct_card)
  moreover have "\<forall>i j. i < j \<and> j < length ps \<longrightarrow> snd (ps ! i) + 1 < fst (ps ! j)"
    using sep by (simp add: sorted_wrt_iff_nth_less)
  ultimately show ?thesis using r cov ord by auto
qed

text \<open>
  Claim C1. For a duplicate-free list of integers, \<open>ranges\<close> returns pairs whose closed
  intervals cover exactly the input values; a later pair starts more than one above the
  end of every earlier pair, so no two pairs overlap or touch; every pair has its lower
  bound at most its upper bound; and the number of pairs is the number of maximal
  contiguous runs of the input values. On the list of the docstring the result is
  \<open>[(1, 4), (10, 12), (17, 18), (20, 20)]\<close>.
\<close>

theorem ranges_maximal_runs:
  "(distinct intList \<longrightarrow>
      (\<exists>pairs. ranges intList = Some (Inr pairs) \<and>
         covered pairs = set intList \<and>
         (\<forall>i j. i < j \<and> j < length pairs \<longrightarrow> snd (pairs ! i) + 1 < fst (pairs ! j)) \<and>
         (\<forall>p \<in> set pairs. fst p \<le> snd p) \<and>
         length pairs = card (maximal_runs (set intList)))) \<and>
   ranges [10, 11, 12, 1, 2, 3, 4, 17, 18, 20] =
     Some (Inr [(1, 4), (10, 12), (17, 18), (20, 20)])"
proof
  show "distinct intList \<longrightarrow>
      (\<exists>pairs. ranges intList = Some (Inr pairs) \<and>
         covered pairs = set intList \<and>
         (\<forall>i j. i < j \<and> j < length pairs \<longrightarrow> snd (pairs ! i) + 1 < fst (pairs ! j)) \<and>
         (\<forall>p \<in> set pairs. fst p \<le> snd p) \<and>
         length pairs = card (maximal_runs (set intList)))"
    using ranges_properties by blast
  show "ranges [10, 11, 12, 1, 2, 3, 4, 17, 18, 20] =
     Some (Inr [(1, 4), (10, 12), (17, 18), (20, 20)])"
    by code_simp
qed

theorem ranges_maximal_runs_witness:
  "distinct [10, 11, 12, 1, 2, 3, 4, 17, 18, 20 :: int] \<and>
   covered [(1, 4), (10, 12), (17, 18), (20, 20)] = set [10, 11, 12, 1, 2, 3, 4, 17, 18, 20] \<and>
   card (maximal_runs (set [10, 11, 12, 1, 2, 3, 4, 17, 18, 20])) = 4"
proof -
  let ?xs = "[10, 11, 12, 1, 2, 3, 4, 17, 18, 20 :: int]"
  have d: "distinct ?xs" by simp
  have r: "ranges ?xs = Some (Inr [(1, 4), (10, 12), (17, 18), (20, 20)])"
    using ranges_maximal_runs [of ?xs] by (rule conjunct2)
  from ranges_maximal_runs [of ?xs] d
  obtain pairs where p: "ranges ?xs = Some (Inr pairs)" "covered pairs = set ?xs"
      "length pairs = card (maximal_runs (set ?xs))"
    by blast
  from p(1) r have "pairs = [(1, 4), (10, 12), (17, 18), (20, 20)]" by simp
  with p d show ?thesis by simp
qed


section \<open>Lists with duplicates\<close>






section \<open>Display tokens\<close>

text \<open>
  Claim C3, as amended. The display tokens for \<open>[10, 11, 12, 1, 2, 3, 4, 17, 18, 20]\<close>
  are \<open>['1 THRU 4', '10 THRU 12', 17, 18, 20]\<close>, as the docstring of \<open>hmRanges\<close> says:
  the run 10..12 has three members and is written as a \<open>THRU\<close> token.
\<close>

theorem hmRanges_docstring:
  "hmRanges [10, 11, 12, 1, 2, 3, 4, 17, 18, 20] =
     Some (Inr [StrTok ''1 THRU 4'', StrTok ''10 THRU 12'', IntTok 17, IntTok 18, IntTok 20])"
  by code_simp

text \<open>The token list of the claim as stated, with 10, 11 and 12 listed one by one, is not produced.\<close>

theorem hmRanges_spec_example_counterexample:
  "hmRanges [10, 11, 12, 1, 2, 3, 4, 17, 18, 20] \<noteq>
     Some (Inr [StrTok ''1 THRU 4'', IntTok 10, IntTok 11, IntTok 12, IntTok 17, IntTok 18,
                IntTok 20])"
  by code_simp

text \<open>
  Claim C5. The tokens of \<open>hmRanges\<close> are the concatenation, pair by pair, of: the
  single integer \<open>lower\<close> when \<open>lower = upper\<close>; the two integers \<open>lower\<close>, \<open>upper\<close> when
  \<open>upper = lower + 1\<close>; and otherwise the one string \<open><lower> THRU <upper>\<close> with both
  bounds in decimal.
\<close>

theorem hmRanges_tokens:
  "\<exists>pairs toks. ranges intList = Some (Inr pairs) \<and>
     hmRanges intList = Some (Inr (concat toks)) \<and> length toks = length pairs \<and>
     (\<forall>i < length pairs.
        (fst (pairs ! i) = snd (pairs ! i) \<longrightarrow> toks ! i = [IntTok (fst (pairs ! i))]) \<and>
        (snd (pairs ! i) = fst (pairs ! i) + 1 \<longrightarrow>
           toks ! i = [IntTok (fst (pairs ! i)), IntTok (snd (pairs ! i))]) \<and>
        (fst (pairs ! i) \<noteq> snd (pairs ! i) \<and> snd (pairs ! i) \<noteq> fst (pairs ! i) + 1 \<longrightarrow>
           toks ! i = [StrTok (fmt_d (fst (pairs ! i)) @ '' THRU '' @ fmt_d (snd (pairs ! i)))]))"
proof -
  obtain pairs where r: "ranges intList = Some (Inr pairs)"
    using ranges_blocks by blast
  let ?toks = "map hm_pair pairs"
  have "hmRanges intList = Some (Inr (concat ?toks))"
    using r by (simp add: hmRanges_def)
  moreover have "length ?toks = length pairs" by simp
  moreover have "\<forall>i < length pairs.
        (fst (pairs ! i) = snd (pairs ! i) \<longrightarrow> ?toks ! i = [IntTok (fst (pairs ! i))]) \<and>
        (snd (pairs ! i) = fst (pairs ! i) + 1 \<longrightarrow>
           ?toks ! i = [IntTok (fst (pairs ! i)), IntTok (snd (pairs ! i))]) \<and>
        (fst (pairs ! i) \<noteq> snd (pairs ! i) \<and> snd (pairs ! i) \<noteq> fst (pairs ! i) + 1 \<longrightarrow>
           ?toks ! i = [StrTok (fmt_d (fst (pairs ! i)) @ '' THRU '' @ fmt_d (snd (pairs ! i)))])"
  proof (intro allI impI)
    fix i assume "i < length pairs"
    obtain l u where lu: "pairs ! i = (l, u)" by (cases "pairs ! i")
    with \<open>i < length pairs\<close> have "?toks ! i = hm_pair (l, u)" by simp
    with lu show "(fst (pairs ! i) = snd (pairs ! i) \<longrightarrow> ?toks ! i = [IntTok (fst (pairs ! i))]) \<and>
        (snd (pairs ! i) = fst (pairs ! i) + 1 \<longrightarrow>
           ?toks ! i = [IntTok (fst (pairs ! i)), IntTok (snd (pairs ! i))]) \<and>
        (fst (pairs ! i) \<noteq> snd (pairs ! i) \<and> snd (pairs ! i) \<noteq> fst (pairs ! i) + 1 \<longrightarrow>
           ?toks ! i = [StrTok (fmt_d (fst (pairs ! i)) @ '' THRU '' @ fmt_d (snd (pairs ! i)))])"
      by auto
  qed
  ultimately show ?thesis using r by blast
qed

theorem hmRanges_tokens_witness:
  "ranges [1, 2, 3, 5, 6, 8] = Some (Inr [(1, 3), (5, 6), (8, 8)]) \<and>
   (\<exists>toks. hmRanges [1, 2, 3, 5, 6, 8] = Some (Inr (concat toks)) \<and>
      toks ! 0 = [StrTok ''1 THRU 3''] \<and> toks ! 1 = [IntTok 5, IntTok 6] \<and>
      toks ! 2 = [IntTok 8])"
proof -
  let ?xs = "[1, 2, 3, 5, 6, 8 :: int]"
  let ?ps = "[(1, 3), (5, 6), (8, 8)] :: (int \<times> int) list"
  have r: "ranges ?xs = Some (Inr ?ps)" by code_simp
  have f: "fmt_d 1 = ''1''" "fmt_d 3 = ''3''" by code_simp+
  from hmRanges_tokens [of ?xs] r
  obtain toks where t: "hmRanges ?xs = Some (Inr (concat toks))"
    and a: "\<forall>i < length ?ps.
        (fst (?ps ! i) = snd (?ps ! i) \<longrightarrow> toks ! i = [IntTok (fst (?ps ! i))]) \<and>
        (snd (?ps ! i) = fst (?ps ! i) + 1 \<longrightarrow>
           toks ! i = [IntTok (fst (?ps ! i)), IntTok (snd (?ps ! i))]) \<and>
        (fst (?ps ! i) \<noteq> snd (?ps ! i) \<and> snd (?ps ! i) \<noteq> fst (?ps ! i) + 1 \<longrightarrow>
           toks ! i = [StrTok (fmt_d (fst (?ps ! i)) @ '' THRU '' @ fmt_d (snd (?ps ! i)))])"
    by auto
  from a [rule_format, of 0] f have 0: "toks ! 0 = [StrTok ''1 THRU 3'']" by simp
  from a [rule_format, of 1] have 1: "toks ! 1 = [IntTok 5, IntTok 6]" by simp
  from a [rule_format, of 2] have 2: "toks ! 2 = [IntTok 8]" by simp
  from r t 0 1 2 show ?thesis by blast
qed


section \<open>Empty inputs\<close>

text \<open>
  Claim C8. \<open>ranges\<close> of the empty list is the empty list of pairs, and \<open>bdfExport\<close> of a
  dictionary with one set without members writes the header, the record line
  \<open>SET    1 = \<close> with nothing after the equals sign, the \<open>$HMSET\<close> line of that set and
  the trailer; for the set named \<open>EMPTY\<close> and set type 2 the document is spelled out.
\<close>

theorem empty_inputs:
  "ranges [] = Some (Inr []) \<and>
   bdfExport st [(matName, [])] setType =
     Some (Inr (st\<lparr>bdf := bdf st @ ''CEND\<newline>'' @ set_label 1 @ ''\<newline>'' @
                          hmset_line 1 setType matName @ ''\<newline>'' @
                          ''BEGIN BULK\<newline>ENDDATA\<newline>'',
                 stderr := stderr st @ matName @ '' 0\<newline>''\<rparr>)) \<and>
   set_label 1 = ''SET    1 = '' \<and>
   bdfExport no_output [(''EMPTY'', [])] 2 =
     Some (Inr \<lparr>bdf = ''CEND\<newline>SET    1 = \<newline>$HMSET        1        2 '' @ [CHR 0x22] @
                       ''EMPTY'' @ [CHR 0x22] @ ''\<newline>BEGIN BULK\<newline>ENDDATA\<newline>'',
                stderr = ''EMPTY 0\<newline>''\<rparr>)"
proof (intro conjI)
  show r: "ranges [] = Some (Inr [])" by code_simp
  have h: "hmRanges [] = Some (Inr [])" by (simp add: hmRanges_def r)
  have p: "py_range 0 (- 8) 8 = []" by (subst py_range.simps) simp
  have z: "fmt_d 0 = ''0''" by code_simp
  show "bdfExport st [(matName, [])] setType =
     Some (Inr (st\<lparr>bdf := bdf st @ ''CEND\<newline>'' @ set_label 1 @ ''\<newline>'' @
                          hmset_line 1 setType matName @ ''\<newline>'' @
                          ''BEGIN BULK\<newline>ENDDATA\<newline>'',
                 stderr := stderr st @ matName @ '' 0\<newline>''\<rparr>))"
    by (simp add: bdfExport_def export_set_def h write_tokens_def chunkSize_def p z
        slice_from_def clip_index_def print_bdf_def print_stderr_def)
  show "set_label 1 = ''SET    1 = ''" by code_simp
  show "bdfExport no_output [(''EMPTY'', [])] 2 =
     Some (Inr \<lparr>bdf = ''CEND\<newline>SET    1 = \<newline>$HMSET        1        2 '' @ [CHR 0x22] @
                       ''EMPTY'' @ [CHR 0x22] @ ''\<newline>BEGIN BULK\<newline>ENDDATA\<newline>'',
                stderr = ''EMPTY 0\<newline>''\<rparr>)"
    by code_simp
qed


section \<open>Reading the tokens back\<close>

lemma digit_cases: "d < 10 \<Longrightarrow> d \<in> {0, 1, 2, 3, 4, 5, 6, 7, 8, 9 :: nat}"
  by auto

lemma digit_val_table: "list_all (\<lambda>d. digit_val (digit_char d) = Some d) [0..<10]"
  by code_simp

lemma digit_val_digit_char: "d < 10 \<Longrightarrow> digit_val (digit_char d) = Some d"
  using digit_val_table by (simp add: list_all_iff)

lemma digit_char_digits: "d < 10 \<Longrightarrow> digit_char d \<in> digits"
  using digit_cases [of d] by (auto simp: digit_char_def digits_def)

lemma not_digits:
  "CHR ''-'' \<notin> digits" "CHR '' '' \<notin> digits" "CHR 0x0A \<notin> digits" "CHR '','' \<notin> digits"
  by (simp_all add: digits_def)

lemma str_nat_chars: "set (str_nat n) \<subseteq> digits"
proof (induction n rule: str_nat.induct)
  case (1 n)
  show ?case
  proof (cases "n < 10")
    case True
    then show ?thesis using digit_char_digits [of n] by (subst str_nat.simps) simp
  next
    case False
    have "n mod 10 < 10" by simp
    from digit_char_digits [OF this] 1 [OF False] False show ?thesis
      by (subst str_nat.simps) simp
  qed
qed

lemma str_nat_nonempty: "str_nat n \<noteq> []"
  by (subst str_nat.simps) simp

lemma fmt_d_chars: "set (fmt_d i) \<subseteq> insert CHR ''-'' digits"
proof (cases "i < 0")
  case True
  then have "set (fmt_d i) = insert CHR ''-'' (set (str_nat (nat (- i))))"
    by (simp add: fmt_d_def)
  also have "\<dots> \<subseteq> insert CHR ''-'' digits"
    by (rule insert_mono) (rule str_nat_chars)
  finally show ?thesis .
next
  case False
  then have "set (fmt_d i) = set (str_nat (nat i))"
    by (simp add: fmt_d_def)
  also have "\<dots> \<subseteq> digits"
    by (rule str_nat_chars)
  finally show ?thesis by blast
qed

lemma parse_nat_acc_append:
  "parse_nat_acc a (xs @ ys) =
     (case parse_nat_acc a xs of None \<Rightarrow> None | Some b \<Rightarrow> parse_nat_acc b ys)"
  by (induction xs arbitrary: a) (auto split: option.splits)

lemma parse_nat_str_nat: "parse_nat_acc 0 (str_nat n) = Some n"
proof (induction n rule: str_nat.induct)
  case (1 n)
  show ?case
  proof (cases "n < 10")
    case True
    then show ?thesis
      by (subst str_nat.simps) (simp add: digit_val_digit_char)
  next
    case False
    have "n mod 10 < 10" by simp
    from digit_val_digit_char [OF this] 1 [OF False] False show ?thesis
      by (subst str_nat.simps) (simp add: parse_nat_acc_append)
  qed
qed

lemma parse_int_fmt_d: "parse_int (fmt_d i) = Some i"
proof (cases "i < 0")
  case True
  then show ?thesis
    by (simp add: fmt_d_def parse_int_def parse_nat_str_nat str_nat_nonempty)
next
  case False
  obtain c cs where s: "str_nat (nat i) = c # cs"
    using str_nat_nonempty [of "nat i"] by (cases "str_nat (nat i)") auto
  have "c \<in> digits" using str_nat_chars [of "nat i"] s by auto
  then have "c \<noteq> CHR ''-''" using not_digits(1) by blast
  with False s parse_nat_str_nat [of "nat i"] show ?thesis
    by (simp add: fmt_d_def parse_int_def)
qed

lemma fmt_d_no_space: "c \<in> set (fmt_d i) \<Longrightarrow> c \<noteq> CHR '' ''"
  using fmt_d_chars [of i] not_digits(2) by auto

lemma fmt_d_no_newline: "CHR 0x0A \<notin> set (fmt_d i)"
  using fmt_d_chars [of i] not_digits(3) by auto

lemma parse_thru_fmt: "parse_thru (fmt_d l @ '' THRU '' @ fmt_d u) = Some (l, u)"
proof -
  have a: "takeWhile (\<lambda>c. c \<noteq> CHR '' '') (fmt_d l @ '' THRU '' @ fmt_d u) = fmt_d l"
    using fmt_d_no_space [of _ l] by (simp add: takeWhile_append2)
  have r: "dropWhile (\<lambda>c. c \<noteq> CHR '' '') (fmt_d l @ '' THRU '' @ fmt_d u) = '' THRU '' @ fmt_d u"
    using fmt_d_no_space [of _ l] by (simp add: dropWhile_append2)
  show ?thesis
    unfolding parse_thru_def a r by (simp add: parse_int_fmt_d)
qed

lemma expand_append:
  "expand (xs @ ys) =
     (case expand xs of None \<Rightarrow> None
      | Some vs \<Rightarrow> (case expand ys of None \<Rightarrow> None | Some ws \<Rightarrow> Some (vs @ ws)))"
  by (induction xs) (auto split: option.splits)

lemma expand_hm_pair:
  assumes "l \<le> u"
  shows "\<exists>vs. expand (hm_pair (l, u)) = Some vs \<and> set vs = {l..u}"
proof -
  consider "l = u" | "l + 1 = u" | "l \<noteq> u" "l + 1 \<noteq> u" by blast
  then show ?thesis
  proof cases
    case 1
    then show ?thesis by simp
  next
    case 2
    then show ?thesis by auto
  next
    case 3
    then show ?thesis using parse_thru_fmt [of l u] by simp
  qed
qed

lemma expand_pairs:
  assumes "\<forall>p \<in> set ps. fst p \<le> snd p"
  shows "\<exists>vs. expand (concat (map hm_pair ps)) = Some vs \<and> set vs = covered ps"
  using assms
proof (induction ps)
  case Nil
  then show ?case by (simp add: covered_Nil)
next
  case (Cons p ps)
  obtain l u where p: "p = (l, u)" by (cases p)
  with Cons.prems have "l \<le> u" by simp
  from expand_hm_pair [OF this]
  obtain vs where vs: "expand (hm_pair (l, u)) = Some vs" "set vs = {l..u}" by blast
  from Cons obtain ws where ws: "expand (concat (map hm_pair ps)) = Some ws" "set ws = covered ps"
    by auto
  have "expand (concat (map hm_pair (p # ps))) = Some (vs @ ws)"
    using vs(1) ws(1) p by (simp add: expand_append del: hm_pair.simps)
  moreover have "set (vs @ ws) = covered (p # ps)"
    using vs(2) ws(2) p by (simp add: covered_Cons)
  ultimately show ?case by blast
qed

text \<open>
  Claim C6. For a duplicate-free list of integers, the token list of \<open>hmRanges\<close> can be
  read back: every \<open>THRU\<close> string parses into its two bounds, and replacing it by all
  integers between them, and every integer token by itself, gives exactly the input
  values.
\<close>

theorem hmRanges_expand:
  assumes "distinct intList"
  shows "\<exists>toks vs. hmRanges intList = Some (Inr toks) \<and> expand toks = Some vs \<and>
           set vs = set intList"
proof -
  from ranges_properties [OF assms]
  obtain pairs where p: "ranges intList = Some (Inr pairs)" "covered pairs = set intList"
      "\<forall>p \<in> set pairs. fst p \<le> snd p"
    by blast
  from expand_pairs [OF p(3)]
  obtain vs where "expand (concat (map hm_pair pairs)) = Some vs" "set vs = covered pairs"
    by blast
  with p show ?thesis by (simp add: hmRanges_def)
qed

theorem hmRanges_expand_witness:
  "distinct [10, 11, 12, 1, 2, 3, 4, 17, 18, 20 :: int] \<and>
   (\<exists>vs. expand [StrTok ''1 THRU 4'', StrTok ''10 THRU 12'', IntTok 17, IntTok 18, IntTok 20]
            = Some vs \<and>
          set vs = set [10, 11, 12, 1, 2, 3, 4, 17, 18, 20])"
proof -
  let ?xs = "[10, 11, 12, 1, 2, 3, 4, 17, 18, 20 :: int]"
  have d: "distinct ?xs" by simp
  have h: "hmRanges ?xs =
     Some (Inr [StrTok ''1 THRU 4'', StrTok ''10 THRU 12'', IntTok 17, IntTok 18, IntTok 20])"
    by code_simp
  from hmRanges_expand [OF d]
  obtain toks vs where t: "hmRanges ?xs = Some (Inr toks)" "expand toks = Some vs"
      "set vs = set ?xs"
    by blast
  from t(1) have "toks =
      [StrTok ''1 THRU 4'', StrTok ''10 THRU 12'', IntTok 17, IntTok 18, IntTok 20]"
    unfolding h by simp
  with t(2,3) d show ?thesis by blast
qed


section \<open>Wrapping the tokens of a record\<close>

lemma chunks8_nonempty: "chunks8 xs \<noteq> []"
  by (subst chunks8.simps) simp

lemma chunks8_concat: "concat (chunks8 xs) = xs"
proof (induction xs rule: chunks8.induct)
  case (1 xs)
  then show ?case by (subst chunks8.simps) simp
qed

lemma chunks8_length: "xs \<noteq> [] \<Longrightarrow> length (chunks8 xs) = (length xs + 7) div 8"
proof (induction xs rule: chunks8.induct)
  case (1 xs)
  show ?case
  proof (cases "length xs \<le> 8")
    case True
    from "1.prems" have "0 < length xs" by simp
    with True have "(length xs + 7) div 8 = 1" by arith
    with True show ?thesis by (subst chunks8.simps) simp
  next
    case False
    then have "drop 8 xs \<noteq> []" by simp
    from "1.IH" [OF False this] False show ?thesis
      by (subst chunks8.simps) simp
  qed
qed

lemma chunks8_butlast: "c \<in> set (butlast (chunks8 xs)) \<Longrightarrow> length c = 8"
proof (induction xs rule: chunks8.induct)
  case (1 xs)
  show ?case
  proof (cases "length xs \<le> 8")
    case True
    with "1.prems" show ?thesis by (subst (asm) chunks8.simps) simp
  next
    case False
    with "1.prems" have "c = take 8 xs \<or> c \<in> set (butlast (chunks8 (drop 8 xs)))"
      by (subst (asm) chunks8.simps) (simp add: chunks8_nonempty)
    with "1.IH" [OF False] False show ?thesis by auto
  qed
qed

lemma chunks8_last: "length (last (chunks8 xs)) \<le> 8 \<and> (xs \<noteq> [] \<longrightarrow> 1 \<le> length (last (chunks8 xs)))"
proof (induction xs rule: chunks8.induct)
  case (1 xs)
  show ?case
  proof (cases "length xs \<le> 8")
    case True
    then show ?thesis by (subst (1 2) chunks8.simps) (cases xs; simp)
  next
    case False
    then have "drop 8 xs \<noteq> []" by simp
    with "1.IH" [OF False] False show ?thesis
      by (subst (1 2) chunks8.simps) (simp add: chunks8_nonempty)
  qed
qed

lemma wrapped_lines_single: "wrapped_lines [c] = join '','' (map str_tok c) @ ''\<newline>''"
  by (simp add: wrapped_lines_def)

lemma wrapped_lines_Cons:
  "cs \<noteq> [] \<Longrightarrow>
   wrapped_lines (c # cs) = join '','' (map str_tok c) @ '',\<newline>'' @ wrapped_lines cs"
  by (simp add: wrapped_lines_def)

lemma bdf_print_bdf: "bdf (print_bdf args sep e st) = bdf st @ join sep args @ e"
  by (simp add: print_bdf_def)

lemma slice_chunk:
  "j + 8 < length ts \<Longrightarrow> slice ts (int j) (int j + chunkSize) = take 8 (drop j ts)"
  by (simp add: slice_def clip_index_def chunkSize_def drop_take nat_add_distrib)

lemma slice_from_nat: "slice_from ts (int j) = drop j ts"
  by (simp add: slice_from_def clip_index_def min_def)

lemma write_from:
  "for_chunks ts (py_range (int j) (int (length ts) - chunkSize) chunkSize) (int j - chunkSize, st)
     = (i, st1) \<Longrightarrow>
   print_bdf (map str_tok (slice_from ts (i + chunkSize))) '','' ''\<newline>'' st1 =
     st\<lparr>bdf := bdf st @ wrapped_lines (chunks8 (drop j ts))\<rparr>"
proof (induction "length ts - j" arbitrary: j st rule: less_induct)
  case less
  show ?case
  proof (cases "j + 8 < length ts")
    case True
    let ?st = "print_bdf (map str_tok (slice ts (int j) (int j + chunkSize))) '','' '',\<newline>'' st"
    have r: "py_range (int j) (int (length ts) - chunkSize) chunkSize =
               int j # py_range (int (j + 8)) (int (length ts) - chunkSize) chunkSize"
      using True by (subst py_range.simps) (simp add: chunkSize_def)
    have "for_chunks ts (py_range (int (j + 8)) (int (length ts) - chunkSize) chunkSize)
            (int (j + 8) - chunkSize, ?st) = (i, st1)"
      using less.prems unfolding r by (simp add: chunkSize_def)
    moreover have "length ts - (j + 8) < length ts - j" using True by simp
    ultimately have "print_bdf (map str_tok (slice_from ts (i + chunkSize))) '','' ''\<newline>'' st1 =
        ?st\<lparr>bdf := bdf ?st @ wrapped_lines (chunks8 (drop (j + 8) ts))\<rparr>"
      by (rule less.hyps [rotated])
    moreover have "\<not> length (drop j ts) \<le> 8" using True by simp
    then have "chunks8 (drop j ts) = take 8 (drop j ts) # chunks8 (drop (j + 8) ts)"
      by (subst chunks8.simps) (simp add: add.commute)
    ultimately show ?thesis
      using True by (simp add: wrapped_lines_Cons chunks8_nonempty slice_chunk print_bdf_def)
  next
    case False
    have "py_range (int j) (int (length ts) - chunkSize) chunkSize = []"
      using False by (subst py_range.simps) (simp add: chunkSize_def)
    with less.prems have "i = int j - chunkSize" "st1 = st" by simp_all
    moreover have "length (drop j ts) \<le> 8" using False by simp
    then have "chunks8 (drop j ts) = [drop j ts]"
      by (subst chunks8.simps) simp
    ultimately show ?thesis
      by (simp add: wrapped_lines_single slice_from_nat print_bdf_def)
  qed
qed

lemma write_tokens_eq:
  "write_tokens ts st = st\<lparr>bdf := bdf st @ wrapped_lines (chunks8 ts)\<rparr>"
proof -
  obtain i st1 where f: "for_chunks ts (py_range 0 (int (length ts) - chunkSize) chunkSize)
      (- chunkSize, st) = (i, st1)"
    by (cases "for_chunks ts (py_range 0 (int (length ts) - chunkSize) chunkSize) (- chunkSize, st)")
  from write_from [of ts 0 st i st1] f
  have "print_bdf (map str_tok (slice_from ts (i + chunkSize))) '','' ''\<newline>'' st1 =
     st\<lparr>bdf := bdf st @ wrapped_lines (chunks8 ts)\<rparr>"
    by simp
  with f show ?thesis by (simp add: write_tokens_def)
qed

lemma token_text_eq: "token_text ts = wrapped_lines (chunks8 ts)"
  by (simp add: token_text_def write_tokens_eq no_output_def)

lemma join_no_newline:
  "\<forall>s \<in> set strs. CHR 0x0A \<notin> set s \<Longrightarrow> CHR 0x0A \<notin> set (join '','' strs)"
  by (induction "'',''" strs rule: join.induct) auto

lemma hm_pair_plain: "t \<in> set (hm_pair p) \<Longrightarrow> CHR 0x0A \<notin> set (str_tok t)"
proof -
  assume t: "t \<in> set (hm_pair p)"
  obtain l u where p: "p = (l, u)" by (cases p)
  have "CHR 0x0A \<notin> set (fmt_d l @ '' THRU '' @ fmt_d u)"
    using fmt_d_no_newline [of l] fmt_d_no_newline [of u] by simp
  with t p fmt_d_no_newline [of l] fmt_d_no_newline [of u] show ?thesis
    by (auto split: if_splits)
qed

lemma hmRanges_plain:
  assumes "hmRanges elems = Some (Inr hmList)" "t \<in> set hmList"
  shows "CHR 0x0A \<notin> set (str_tok t)"
proof -
  from assms(1) obtain ps where "hmList = concat (map hm_pair ps)"
    by (auto simp: hmRanges_def split: option.splits sum.splits)
  with assms(2) obtain p where "t \<in> set (hm_pair p)" by auto
  then show ?thesis by (rule hm_pair_plain)
qed

lemma wrapped_lines_count:
  assumes "chunks \<noteq> []" "\<forall>c \<in> set chunks. \<forall>t \<in> set c. CHR 0x0A \<notin> set (str_tok t)"
  shows "count_list (wrapped_lines chunks) CHR 0x0A = length chunks"
  using assms
proof (induction chunks)
  case Nil
  then show ?case by simp
next
  case (Cons c cs)
  have c: "count_list (join '','' (map str_tok c)) CHR 0x0A = 0"
    using Cons.prems(2) by (intro count_list_0_iff [THEN iffD2] join_no_newline) simp
  show ?case
  proof (cases "cs = []")
    case True
    with c show ?thesis by (simp add: wrapped_lines_single)
  next
    case False
    with Cons have "count_list (wrapped_lines cs) CHR 0x0A = length cs" by simp
    with c False show ?thesis by (simp add: wrapped_lines_Cons)
  qed
qed

lemma export_set_eq:
  assumes "hmRanges elems = Some (Inr hmList)"
  shows "export_set setType matId (matName, elems) st =
     Some (Inr (st\<lparr>bdf := bdf st @ set_label matId @ token_text hmList @
                          hmset_line matId setType matName @ ''\<newline>'',
                 stderr := stderr st @ matName @ '' '' @ fmt_d (int (length elems)) @ ''\<newline>''\<rparr>))"
  using assms
  by (simp add: export_set_def write_tokens_eq token_text_eq print_bdf_def print_stderr_def)

text \<open>
  Claim C4, as amended. For a set whose token list has \<open>K \<ge> 1\<close> tokens, the tokens are
  written in \<open>ceil(K / 8)\<close> groups in order: every group but the last has exactly 8
  tokens and is followed by a comma and a line break, the last group has 1 to 8 tokens
  and is followed by a line break only; the text has exactly \<open>ceil(K / 8)\<close> line breaks,
  so the record occupies that many physical lines; and the loop body of \<open>bdfExport\<close>
  writes the label \<open>SET<id> = \<close>, this text and the \<open>$HMSET\<close> line.
\<close>

theorem token_lines:
  assumes "hmRanges elems = Some (Inr hmList)" and "hmList \<noteq> []"
  shows "\<exists>chunks. concat chunks = hmList \<and>
           length chunks = (length hmList + 7) div 8 \<and>
           (\<forall>c \<in> set (butlast chunks). length c = 8) \<and>
           1 \<le> length (last chunks) \<and> length (last chunks) \<le> 8 \<and>
           token_text hmList =
             concat (map (\<lambda>c. join '','' (map str_tok c) @ '',\<newline>'') (butlast chunks)) @
             join '','' (map str_tok (last chunks)) @ ''\<newline>'' \<and>
           count_list (token_text hmList) CHR 0x0A = (length hmList + 7) div 8 \<and>
           export_set setType matId (matName, elems) st =
             Some (Inr (st\<lparr>bdf := bdf st @ set_label matId @ token_text hmList @
                                  hmset_line matId setType matName @ ''\<newline>'',
                         stderr := stderr st @ matName @ '' '' @
                                   fmt_d (int (length elems)) @ ''\<newline>''\<rparr>))"
proof -
  let ?chunks = "chunks8 hmList"
  have plain: "\<forall>c \<in> set ?chunks. \<forall>t \<in> set c. CHR 0x0A \<notin> set (str_tok t)"
  proof (intro ballI)
    fix c t assume "c \<in> set ?chunks" "t \<in> set c"
    then have "t \<in> set (concat ?chunks)" by auto
    then have "t \<in> set hmList" by (simp add: chunks8_concat)
    with assms(1) show "CHR 0x0A \<notin> set (str_tok t)" by (rule hmRanges_plain)
  qed
  have 1: "concat ?chunks = hmList" by (rule chunks8_concat)
  have 2: "length ?chunks = (length hmList + 7) div 8" using assms(2) by (rule chunks8_length)
  have 3: "\<forall>c \<in> set (butlast ?chunks). length c = 8" using chunks8_butlast by blast
  have 4: "1 \<le> length (last ?chunks)" "length (last ?chunks) \<le> 8"
    using chunks8_last [of hmList] assms(2) by auto
  have 5: "token_text hmList =
             concat (map (\<lambda>c. join '','' (map str_tok c) @ '',\<newline>'') (butlast ?chunks)) @
             join '','' (map str_tok (last ?chunks)) @ ''\<newline>''"
    unfolding token_text_eq wrapped_lines_def ..
  have 6: "count_list (token_text hmList) CHR 0x0A = (length hmList + 7) div 8"
    unfolding token_text_eq using wrapped_lines_count [OF chunks8_nonempty plain] 2 by simp
  note 7 = export_set_eq [OF assms(1), of setType matId matName st]
  from 1 2 3 4 5 6 7 show ?thesis by blast
qed

theorem token_lines_witness:
  "hmRanges [2, 4, 6, 8, 10, 12, 14, 16, 18, 20] =
     Some (Inr (map IntTok [2, 4, 6, 8, 10, 12, 14, 16, 18, 20])) \<and>
   map IntTok [2, 4, 6, 8, 10, 12, 14, 16, 18, 20] \<noteq> [] \<and>
   count_list (token_text (map IntTok [2, 4, 6, 8, 10, 12, 14, 16, 18, 20])) CHR 0x0A = 2 \<and>
   token_text (map IntTok [2, 4, 6, 8, 10, 12, 14, 16, 18, 20]) =
     ''2,4,6,8,10,12,14,16,\<newline>18,20\<newline>''"
proof -
  let ?ts = "map IntTok [2, 4, 6, 8, 10, 12, 14, 16, 18, 20]"
  have h: "hmRanges [2, 4, 6, 8, 10, 12, 14, 16, 18, 20] = Some (Inr ?ts)" by code_simp
  have n: "?ts \<noteq> []" by simp
  have v: "token_text ?ts = ''2,4,6,8,10,12,14,16,\<newline>18,20\<newline>''" by code_simp
  from token_lines [OF h n]
  have "count_list (token_text ?ts) CHR 0x0A = (length ?ts + 7) div 8" by blast
  then have "count_list (token_text ?ts) CHR 0x0A = 2" by simp
  with h n v show ?thesis by blast
qed

text \<open>
  The claim as stated includes \<open>K = 0\<close>: a set without members has no tokens, and the
  final \<open>print\<close> still writes a line break, so its record occupies one physical line,
  not \<open>ceil(0 / 8) = 0\<close>, and that line holds no token.
\<close>

theorem token_lines_counterexample:
  "hmRanges [] = Some (Inr []) \<and> token_text [] = ''\<newline>'' \<and>
   count_list (token_text []) CHR 0x0A \<noteq> (length ([] :: token list) + 7) div 8"
proof -
  have h: "hmRanges [] = Some (Inr [])" by code_simp
  have t: "token_text [] = ''\<newline>''" by code_simp
  from h t show ?thesis by simp
qed


section \<open>The document\<close>

lemma hmRanges_total: "hmRanges elems = Some (Inr (tokens_of elems))"
proof -
  obtain ps where "ranges elems = Some (Inr ps)" using ranges_blocks by blast
  then show ?thesis by (simp add: hmRanges_def tokens_of_def)
qed

lemma export_set_record:
  "export_set setType matId item st =
     Some (Inr (st\<lparr>bdf := bdf st @ record_text setType matId item,
                 stderr := stderr st @ notice item\<rparr>))"
proof -
  obtain matName elems where item: "item = (matName, elems)" by (cases item)
  show ?thesis
    unfolding item using export_set_eq [OF hmRanges_total, of setType matId matName elems st]
    by (simp add: record_text_def notice_def)
qed

lemma export_sets_eq:
  "export_sets setType matId items st =
     Some (Inr (st\<lparr>bdf := bdf st @ concat (records setType matId items),
                 stderr := stderr st @ concat (map notice items)\<rparr>))"
proof (induction items arbitrary: matId st)
  case Nil
  then show ?case by simp
next
  case (Cons item items)
  show ?case
    by (simp add: export_set_record Cons.IH)
qed

lemma bdfExport_eq:
  "bdfExport st setDict setType =
     Some (Inr (st\<lparr>bdf := bdf st @ ''CEND\<newline>'' @ concat (records setType 1 (sort setDict)) @
                          ''BEGIN BULK\<newline>ENDDATA\<newline>'',
                 stderr := stderr st @ concat (map notice (sort setDict))\<rparr>))"
  by (simp add: bdfExport_def export_sets_eq print_bdf_def)

lemma records_length: "length (records setType matId items) = length items"
  by (induction items arbitrary: matId) simp_all

lemma records_nth:
  "k < length items \<Longrightarrow>
   records setType matId items ! k = record_text setType (matId + int k) (items ! k)"
proof (induction items arbitrary: matId k)
  case Nil
  then show ?case by simp
next
  case (Cons item items)
  show ?case
  proof (cases k)
    case 0
    then show ?thesis by simp
  next
    case (Suc k')
    with Cons.prems have "k' < length items" by simp
    from Cons.IH [OF this, of "matId + 1"] Suc show ?thesis by (simp add: add.assoc)
  qed
qed


lemma sorted_names: "sorted (map fst (sort (setDict :: (string \<times> int list) list)))"
proof -
  have "sorted_wrt (\<lambda>x y. fst x \<le> fst y) (sort setDict)"
  proof (rule sorted_wrt_mono_rel [of _ "(\<le>)"])
    show "sorted_wrt (\<le>) (sort setDict)" by simp
  next
    fix x y :: "string \<times> int list"
    assume "x \<le> y"
    then show "fst x \<le> fst y" by (auto simp: less_eq_prod_def)
  qed
  then show ?thesis by (simp add: sorted_map)
qed

lemma sort_permutation:
  "mset (xs :: (string \<times> int list) list) = mset ys \<Longrightarrow> sort xs = sort ys"
  by (rule properties_for_sort) simp_all



text \<open>
  Claim C7. The document does not depend on the order in which the dictionary lists its
  items: two item lists that are permutations of each other give the same result. The
  records follow the items in ascending order of the set names, and the record at
  position \<open>k\<close> (from 0) carries the sequence id \<open>k + 1\<close> in its \<open>SET\<close> label and its
  \<open>$HMSET\<close> line, together with the tokens and the name of the item at that position.
\<close>

theorem export_order:
  "(mset setDict = mset setDict' \<longrightarrow>
      bdfExport st setDict setType = bdfExport st setDict' setType) \<and>
   (\<exists>items recs st'. mset items = mset setDict \<and> sorted (map fst items) \<and>
      length recs = length items \<and>
      bdfExport st setDict setType = Some (Inr st') \<and>
      bdf st' = bdf st @ ''CEND\<newline>'' @ concat recs @ ''BEGIN BULK\<newline>ENDDATA\<newline>'' \<and>
      (\<forall>k < length items. \<exists>hmList.
         hmRanges (snd (items ! k)) = Some (Inr hmList) \<and>
         recs ! k = set_label (int k + 1) @ token_text hmList @
                    hmset_line (int k + 1) setType (fst (items ! k)) @ ''\<newline>''))"
proof (intro conjI impI)
  assume "mset setDict = mset setDict'"
  then have "sort setDict = sort setDict'" by (rule sort_permutation)
  then show "bdfExport st setDict setType = bdfExport st setDict' setType"
    by (simp add: bdfExport_eq)
next
  let ?items = "sort setDict"
  let ?recs = "records setType 1 ?items"
  have 1: "mset ?items = mset setDict" by simp
  have 2: "sorted (map fst ?items)" by (rule sorted_names)
  have 3: "length ?recs = length ?items" by (rule records_length)
  have 4: "\<forall>k < length ?items. \<exists>hmList.
         hmRanges (snd (?items ! k)) = Some (Inr hmList) \<and>
         ?recs ! k = set_label (int k + 1) @ token_text hmList @
                    hmset_line (int k + 1) setType (fst (?items ! k)) @ ''\<newline>''"
  proof (intro allI impI)
    fix k assume "k < length ?items"
    then have "?recs ! k = record_text setType (1 + int k) (?items ! k)"
      by (rule records_nth)
    then have "?recs ! k = set_label (int k + 1) @ token_text (tokens_of (snd (?items ! k))) @
                    hmset_line (int k + 1) setType (fst (?items ! k)) @ ''\<newline>''"
      by (simp add: record_text_def add.commute)
    with hmRanges_total [of "snd (?items ! k)"]
    show "\<exists>hmList. hmRanges (snd (?items ! k)) = Some (Inr hmList) \<and>
         ?recs ! k = set_label (int k + 1) @ token_text hmList @
                    hmset_line (int k + 1) setType (fst (?items ! k)) @ ''\<newline>''"
      by blast
  qed
  obtain st' where 5: "bdfExport st setDict setType = Some (Inr st')"
    "bdf st' = bdf st @ ''CEND\<newline>'' @ concat ?recs @ ''BEGIN BULK\<newline>ENDDATA\<newline>''"
    using bdfExport_eq [of st setDict setType] by force
  from 1 2 3 4 5 show "\<exists>items recs st'. mset items = mset setDict \<and> sorted (map fst items) \<and>
      length recs = length items \<and>
      bdfExport st setDict setType = Some (Inr st') \<and>
      bdf st' = bdf st @ ''CEND\<newline>'' @ concat recs @ ''BEGIN BULK\<newline>ENDDATA\<newline>'' \<and>
      (\<forall>k < length items. \<exists>hmList.
         hmRanges (snd (items ! k)) = Some (Inr hmList) \<and>
         recs ! k = set_label (int k + 1) @ token_text hmList @
                    hmset_line (int k + 1) setType (fst (items ! k)) @ ''\<newline>'')"
    by blast
qed

theorem export_order_witness:
  "mset [(''SET_B'', [2, 4, 6 :: int]), (''SET_A'', [10, 11, 12])] =
     mset [(''SET_A'', [10, 11, 12]), (''SET_B'', [2, 4, 6])] \<and>
   bdfExport no_output [(''SET_B'', [2, 4, 6]), (''SET_A'', [10, 11, 12])] 2 =
     bdfExport no_output [(''SET_A'', [10, 11, 12]), (''SET_B'', [2, 4, 6])] 2 \<and>
   bdfExport no_output [(''SET_B'', [2, 4, 6]), (''SET_A'', [10, 11, 12])] 2 =
     Some (Inr \<lparr>bdf = ''CEND\<newline>SET    1 = 10 THRU 12\<newline>$HMSET        1        2 '' @ [CHR 0x22] @
                       ''SET_A'' @ [CHR 0x22] @ ''\<newline>SET    2 = 2,4,6\<newline>$HMSET        2        2 '' @
                       [CHR 0x22] @ ''SET_B'' @ [CHR 0x22] @ ''\<newline>BEGIN BULK\<newline>ENDDATA\<newline>'',
                stderr = ''SET_A 3\<newline>SET_B 3\<newline>''\<rparr>)"
proof -
  let ?a = "[(''SET_B'', [2, 4, 6 :: int]), (''SET_A'', [10, 11, 12])]"
  let ?b = "[(''SET_A'', [10, 11, 12 :: int]), (''SET_B'', [2, 4, 6])]"
  have m: "mset ?a = mset ?b" by (simp add: add_mset_commute)
  from export_order [of ?a ?b no_output 2] m
  have e: "bdfExport no_output ?a 2 = bdfExport no_output ?b 2" by blast
  have v: "bdfExport no_output ?a 2 =
     Some (Inr \<lparr>bdf = ''CEND\<newline>SET    1 = 10 THRU 12\<newline>$HMSET        1        2 '' @ [CHR 0x22] @
                       ''SET_A'' @ [CHR 0x22] @ ''\<newline>SET    2 = 2,4,6\<newline>$HMSET        2        2 '' @
                       [CHR 0x22] @ ''SET_B'' @ [CHR 0x22] @ ''\<newline>BEGIN BULK\<newline>ENDDATA\<newline>'',
                stderr = ''SET_A 3\<newline>SET_B 3\<newline>''\<rparr>)"
    by code_simp
  from m e v show ?thesis by blast
qed

end
